theory Spec2Isabelle
  imports Main "HOL-Library.Char_ord" "HOL-Library.List_Lexorder"
begin

section \<open>Text, values and the JavaScript containers used by the word routes\<close>

text \<open>
  The development embeds the two word-route modules of the repository:
  \<^verbatim>\<open>src/routes/words.js\<close> (shared \<^verbatim>\<open>validateWords\<close>, separate validate and submit
  routes) and \<^verbatim>\<open>backend/routes/words.js\<close> (one POST route switched by the
  \<^verbatim>\<open>action\<close> query parameter), together with the schema of \<^verbatim>\<open>models/Word.js\<close>.

  Text is a \<^typ>\<open>string\<close> whose characters are read as the code points U+0000 to U+00FF.
  On that range \<^verbatim>\<open>String.prototype.toLowerCase\<close> moves A-Z and the upper-case letters
  U+00C0 to U+00DE (without the multiplication sign U+00D7) up by 32, and
  \<^verbatim>\<open>String.prototype.trim\<close> strips tab, line feed, vertical tab, form feed, carriage return,
  space and the no-break space U+00A0.
\<close>

definition lowerChar :: "char \<Rightarrow> char" where
  "lowerChar c =
     (let n = (of_char c :: nat)
      in if (65 \<le> n \<and> n \<le> 90) \<or> (192 \<le> n \<and> n \<le> 222 \<and> n \<noteq> 215)
         then char_of (n + 32) else c)"

definition toLowerCase :: "string \<Rightarrow> string" where
  "toLowerCase s = map lowerChar s"

definition isWhite :: "char \<Rightarrow> bool" where
  "isWhite c = ((of_char c :: nat) \<in> {9, 10, 11, 12, 13, 32, 160})"

definition trim :: "string \<Rightarrow> string" where
  "trim s = rev (dropWhile isWhite (rev (dropWhile isWhite s)))"

text \<open>
  An element of the posted \<^verbatim>\<open>words\<close> array is observed by the routes in two ways only: its
  truthiness (\<^verbatim>\<open>s || ""\<close>) and its \<^verbatim>\<open>String(...)\<close> conversion. \<open>JStr\<close> is a string,
  \<open>JFalsy\<close> any of the falsy non-strings (\<^verbatim>\<open>null\<close>, \<^verbatim>\<open>undefined\<close>, \<^verbatim>\<open>false\<close>,
  \<^verbatim>\<open>0\<close>, \<^verbatim>\<open>NaN\<close>), and \<open>JOther t\<close> any other value (a non-zero number, \<^verbatim>\<open>true\<close>, an
  array, an object) whose \<^verbatim>\<open>String(...)\<close> conversion is \<open>t\<close>. So \<^verbatim>\<open>String(s || "")\<close> is the
  empty text for every falsy element, the number zero and \<^verbatim>\<open>false\<close> included. An object
  whose conversion to a string throws is outside the model.
\<close>

datatype jsval = JStr string | JFalsy | JOther string

fun coerce :: "jsval \<Rightarrow> string" where
  "coerce (JStr s) = s"
| "coerce JFalsy = []"
| "coerce (JOther t) = t"

text \<open>
  \<^verbatim>\<open>normalizeList(items = [])\<close>. The argument is \<open>None\<close> when \<^verbatim>\<open>words\<close> is missing or is
  not an array; both give the two empty lists. \<^verbatim>\<open>filter(Boolean)\<close> keeps the non-empty
  strings.
\<close>

record normalized =
  cleaned :: "string list"
  lowers :: "string list"

definition normalizeList :: "jsval list option \<Rightarrow> normalized" where
  "normalizeList items =
     (let cl = (case items of
                  None \<Rightarrow> []
                | Some xs \<Rightarrow> filter (\<lambda>s. s \<noteq> []) (map (\<lambda>s. trim (coerce s)) xs))
      in \<lparr>cleaned = cl, lowers = map toLowerCase cl\<rparr>)"

text \<open>
  \<^verbatim>\<open>Array.from(new Set(xs))\<close> and the spread of a \<^verbatim>\<open>Set\<close>: the elements in the order of
  their first insertion, each once.
\<close>

definition set_add :: "'a list \<Rightarrow> 'a \<Rightarrow> 'a list" where
  "set_add acc x = (if x \<in> set acc then acc else acc @ [x])"

definition fromSet :: "'a list \<Rightarrow> 'a list" where
  "fromSet xs = foldl set_add [] xs"

text \<open>
  A \<^verbatim>\<open>Map\<close> as an association list in insertion order: \<^verbatim>\<open>set\<close> on a present key
  replaces the value in place, on a new key it appends the entry.
\<close>

fun map_set :: "('k \<times> 'v) list \<Rightarrow> 'k \<Rightarrow> 'v \<Rightarrow> ('k \<times> 'v) list" where
  "map_set [] k v = [(k, v)]"
| "map_set ((k', v') # m) k v =
     (if k' = k then (k, v) # m else (k', v') # map_set m k v)"

text \<open>\<^verbatim>\<open>counts.get(k) || 0\<close>: a missing key reads as \<^verbatim>\<open>undefined\<close>, hence 0.\<close>

definition map_get_or0 :: "('k \<times> nat) list \<Rightarrow> 'k \<Rightarrow> nat" where
  "map_get_or0 m k = (case map_of m k of None \<Rightarrow> 0 | Some c \<Rightarrow> c)"

record conflicts =
  db :: "string list"
  inBatch :: "string list"

definition conflictsObj :: "string list \<Rightarrow> string list \<Rightarrow> conflicts" where
  "conflictsObj d b =
     \<lparr>db = fromSet (map toLowerCase d), inBatch = fromSet (map toLowerCase b)\<rparr>"

text \<open>
  The in-batch duplicate block shared by both modules:
  \<^verbatim>\<open>lowers.forEach((l) => counts.set(l, (counts.get(l) || 0) + 1))\<close>, then the keys of
  the entries whose count exceeds one, in the order of the \<^verbatim>\<open>Map\<close>.
\<close>

definition countLowers :: "string list \<Rightarrow> (string \<times> nat) list" where
  "countLowers ls = foldl (\<lambda>counts l. map_set counts l (map_get_or0 counts l + 1)) [] ls"

definition inBatchOf :: "string list \<Rightarrow> string list" where
  "inBatchOf ls = map fst (filter (\<lambda>(k, c). c > 1) (countLowers ls))"

section \<open>The word store\<close>

text \<open>
  A stored document has the fields of the schema in \<^verbatim>\<open>models/Word.js\<close>; \<open>learned\<close> and
  \<open>notes_field\<close> (the member \<^verbatim>\<open>notes\<close>) take their schema defaults on insertion.
  The driver's opaque \<^verbatim>\<open>_id\<close> is not modelled. The collection is the list of its documents in insertion order. Requester
  identities are the verified identities handed over by the authentication middleware.
\<close>

record word_doc =
  userId :: string
  word :: string
  wordLower :: string
  addedAt :: int
  learned :: bool
  notes_field :: string

text \<open>
  A rejected store operation: \<open>DuplicateKey\<close> is the driver error with
  \<^verbatim>\<open>code === 11000\<close> raised by the unique index on \<^verbatim>\<open>wordLower\<close>; \<open>StoreFailure\<close> is any
  other rejection (the store cannot be reached).
\<close>

datatype store_error = DuplicateKey string | StoreFailure

text \<open>
  \<^verbatim>\<open>Word.find({ wordLower: { $in: lowers } }, { wordLower: 1 }).lean()\<close>; the flag says
  whether the store answers.
\<close>

definition Word_find :: "bool \<Rightarrow> word_doc list \<Rightarrow> string list \<Rightarrow> store_error + word_doc list" where
  "Word_find up st ls =
     (if up then Inr (filter (\<lambda>d. wordLower d \<in> set ls) st) else Inl StoreFailure)"

text \<open>
  \<^verbatim>\<open>Word.insertMany(docs, { ordered: true })\<close> on a collection with the unique index of
  \<^verbatim>\<open>models/Word.js\<close>: the documents are written one after the other, the first document
  whose \<^verbatim>\<open>wordLower\<close> is already in the collection raises the duplicate-key error, the
  documents after it are not attempted, and the documents written before it stay (the
  call opens no transaction). The result is the collection afterwards and either the
  error or the inserted documents. The index is declared by the schema and requested
  once more by \<^verbatim>\<open>ensureWordLowerIndexOnce\<close>; the model takes it to be in place. The
  documents that the routes build satisfy the schema, so validation never rejects them.
\<close>

fun insertOrdered ::
  "word_doc list \<Rightarrow> word_doc list \<Rightarrow> word_doc list \<times> (store_error + word_doc list)" where
  "insertOrdered st [] = (st, Inr [])"
| "insertOrdered st (d # ds) =
     (if wordLower d \<in> set (map wordLower st) then (st, Inl (DuplicateKey (wordLower d)))
      else (case insertOrdered (st @ [d]) ds of
              (st', Inl e) \<Rightarrow> (st', Inl e)
            | (st', Inr ins) \<Rightarrow> (st', Inr (d # ins))))"

definition Word_insertMany ::
  "bool \<Rightarrow> word_doc list \<Rightarrow> word_doc list \<Rightarrow> word_doc list \<times> (store_error + word_doc list)" where
  "Word_insertMany up st docs = (if up then insertOrdered st docs else (st, Inl StoreFailure))"

text \<open>
  What surrounds one request: whether each of its store operations is answered, and the
  documents that other requests commit between its operations (\<open>between\<close>: after the
  conflict query and before the insertion; \<open>later\<close>: after a failed insertion and before
  the second query of \<^verbatim>\<open>backend/routes/words.js\<close>). \<open>clock i\<close> is the value of the
  \<open>i\<close>-th \<^verbatim>\<open>new Date()\<close> of the request, in milliseconds.
\<close>

record env =
  find_up :: bool
  between :: "word_doc list"
  insert_up :: bool
  later :: "word_doc list"
  requery_up :: bool
  clock :: "nat \<Rightarrow> int"

section \<open>Replies\<close>

text \<open>
  A reply is the HTTP status and the members of the JSON body that the routes send;
  an absent member is \<open>None\<close>. \<open>body_status\<close> is the \<^verbatim>\<open>status\<close> member that the
  validate route of \<^verbatim>\<open>src/routes/words.js\<close> passes on inside the body.
\<close>

record reply =
  status :: nat
  ok :: "bool option"
  body_status :: "nat option"
  error :: "string option"
  message :: "string option"
  conflicts :: "conflicts option"
  added :: "nat option"

definition json :: "nat \<Rightarrow> reply" where
  "json st = \<lparr>status = st, ok = None, body_status = None, error = None, message = None,
              conflicts = None, added = None\<rparr>"

text \<open>The decimal digits of a count, as the template literal prints them.\<close>

fun decimal :: "nat \<Rightarrow> string" where
  "decimal n =
     (if n < 10 then [char_of (48 + n)] else decimal (n div 10) @ [char_of (48 + n mod 10)])"

declare decimal.simps [simp del]

definition countError :: "nat \<Rightarrow> string" where
  "countError n = ''Exactly 10 words required. Received '' @ decimal n @ ''.''"

section \<open>\<^verbatim>\<open>src/routes/words.js\<close>\<close>

text \<open>The object returned by \<^verbatim>\<open>validateWords\<close>; a member that a branch leaves out is \<open>None\<close>.\<close>

record vresult =
  v_ok :: bool
  v_status :: "nat option"
  v_error :: "string option"
  v_cleaned :: "string list option"
  v_lowers :: "string list option"
  v_conflicts :: conflicts

definition validateWords ::
  "bool \<Rightarrow> word_doc list \<Rightarrow> jsval list option \<Rightarrow> store_error + vresult" where
  "validateWords up st words =
     (let n = normalizeList words in
      if length (cleaned n) \<noteq> 10 then
        Inr \<lparr>v_ok = False, v_status = Some 400,
             v_error = Some (countError (length (cleaned n))),
             v_cleaned = None, v_lowers = None, v_conflicts = conflictsObj [] []\<rparr>
      else
        let inB = inBatchOf (lowers n) in
        case Word_find up st (lowers n) of
          Inl e \<Rightarrow> Inl e
        | Inr found \<Rightarrow>
            let existingLower = fromSet (map (\<lambda>d. toLowerCase (wordLower d)) found) in
            if length existingLower = 0 \<and> length inB = 0 then
              Inr \<lparr>v_ok = True, v_status = None, v_error = None,
                   v_cleaned = Some (cleaned n), v_lowers = Some (lowers n),
                   v_conflicts = conflictsObj [] []\<rparr>
            else
              Inr \<lparr>v_ok = False, v_status = None, v_error = None,
                   v_cleaned = None, v_lowers = None,
                   v_conflicts = conflictsObj existingLower inB\<rparr>)"

text \<open>
  \<^verbatim>\<open>router.post("/validate")\<close>. Every route returns its reply and the collection as its
  last store operation left it.
\<close>

definition post_validate :: "env \<Rightarrow> word_doc list \<Rightarrow> jsval list option \<Rightarrow> reply \<times> word_doc list" where
  "post_validate e st words =
     (case validateWords (find_up e) st words of
        Inl err \<Rightarrow> ((json 500)\<lparr>error := Some ''Validation failed''\<rparr>, st)
      | Inr result \<Rightarrow>
          if \<not> v_ok result then
            ((json (case v_status result of None \<Rightarrow> 200 | Some c \<Rightarrow> if c = 0 then 200 else c))
               \<lparr>ok := Some (v_ok result), body_status := v_status result,
                error := v_error result, conflicts := Some (v_conflicts result)\<rparr>, st)
          else
            ((json 200)\<lparr>ok := Some True, message := Some ''No conflicts'',
                         conflicts := Some (v_conflicts result)\<rparr>, st))"

text \<open>The \<^verbatim>\<open>catch\<close> block of \<^verbatim>\<open>router.post("/")\<close>.\<close>

fun insert_failed :: "store_error \<Rightarrow> reply" where
  "insert_failed (DuplicateKey k) = (json 409)\<lparr>error := Some ''One or more words already exist''\<rparr>"
| "insert_failed StoreFailure = (json 500)\<lparr>error := Some ''Insert failed''\<rparr>"

text \<open>The documents built from the cleaned words for the requester \<open>uid\<close>.\<close>

definition mkDocs :: "string \<Rightarrow> (nat \<Rightarrow> int) \<Rightarrow> string list \<Rightarrow> word_doc list" where
  "mkDocs uid clk cl =
     map (\<lambda>(i, w). \<lparr>userId = uid, word = w, wordLower = toLowerCase w, addedAt = clk i,
                     learned = False, notes_field = []\<rparr>) (enumerate 0 cl)"

text \<open>
  \<^verbatim>\<open>router.post("/")\<close>. A missing \<^verbatim>\<open>result.cleaned\<close> would raise a \<^verbatim>\<open>TypeError\<close> inside
  the \<^verbatim>\<open>try\<close>, which the \<^verbatim>\<open>catch\<close> block answers like any error without the code 11000.
\<close>

definition post_words ::
  "string \<Rightarrow> env \<Rightarrow> word_doc list \<Rightarrow> jsval list option \<Rightarrow> reply \<times> word_doc list" where
  "post_words uid e st words =
     (case validateWords (find_up e) st words of
        Inl err \<Rightarrow> (insert_failed err, st)
      | Inr result \<Rightarrow>
          if \<not> v_ok result then
            ((json 409)\<lparr>error := Some ''Conflicts found. Fix duplicates before submitting.'',
                         conflicts := Some (v_conflicts result)\<rparr>, st)
          else
            (case v_cleaned result of
               None \<Rightarrow> (insert_failed StoreFailure, st)
             | Some cl \<Rightarrow>
                 (case Word_insertMany (insert_up e) (st @ between e) (mkDocs uid (clock e) cl) of
                    (st', Inl err) \<Rightarrow> (insert_failed err, st')
                  | (st', Inr inserted) \<Rightarrow> ((json 200)\<lparr>added := Some (length inserted)\<rparr>, st'))))"

section \<open>\<^verbatim>\<open>backend/routes/words.js\<close>\<close>

text \<open>
  \<^verbatim>\<open>router.post("/")\<close> of the second module; \<open>action\<close> is
  \<^verbatim>\<open>String(req.query?.action ?? "")\<close>. The second query runs inside the \<^verbatim>\<open>catch\<close> block
  with no handler of its own: when it is rejected the route sends nothing, which is the
  reply \<open>None\<close>.
\<close>

definition post_words_backend ::
  "string \<Rightarrow> string \<Rightarrow> env \<Rightarrow> word_doc list \<Rightarrow> jsval list option
     \<Rightarrow> reply option \<times> word_doc list" where
  "post_words_backend uid action e st words =
     (let act = toLowerCase action;
          items = (case words of None \<Rightarrow> [] | Some xs \<Rightarrow> xs);
          n = normalizeList (Some items)
      in
      if length (cleaned n) \<noteq> 10 then
        (Some ((json 400)\<lparr>error := Some (countError (length (cleaned n))),
                           conflicts := Some (conflictsObj [] [])\<rparr>), st)
      else
        let inB = inBatchOf (lowers n) in
        case Word_find (find_up e) st (lowers n) of
          Inl err \<Rightarrow> (Some ((json 500)\<lparr>error := Some ''DB fetch failed''\<rparr>), st)
        | Inr found \<Rightarrow>
            let existingLower = fromSet (map (\<lambda>d. toLowerCase (wordLower d)) found) in
            if act = ''validate'' then
              (if length existingLower = 0 \<and> length inB = 0 then
                 (Some ((json 200)\<lparr>ok := Some True, message := Some ''No conflicts'',
                                    conflicts := Some (conflictsObj [] [])\<rparr>), st)
               else
                 (Some ((json 200)\<lparr>ok := Some False, message := Some ''Conflicts found'',
                                    conflicts := Some (conflictsObj existingLower inB)\<rparr>), st))
            else if length existingLower > 0 \<or> length inB > 0 then
              (Some ((json 409)\<lparr>error := Some ''Conflicts found. Fix duplicates before submitting.'',
                                 conflicts := Some (conflictsObj existingLower inB)\<rparr>), st)
            else
              (case Word_insertMany (insert_up e) (st @ between e) (mkDocs uid (clock e) (cleaned n)) of
                 (st', Inr inserted) \<Rightarrow> (Some ((json 200)\<lparr>added := Some (length inserted)\<rparr>), st')
               | (st', Inl (DuplicateKey k)) \<Rightarrow>
                   (case Word_find (requery_up e) (st' @ later e) (lowers n) of
                      Inl err \<Rightarrow> (None, st' @ later e)
                    | Inr nowExisting \<Rightarrow>
                        (Some ((json 409)\<lparr>error := Some ''One or more words already exist'',
                                           conflicts := Some (conflictsObj (map wordLower nowExisting) [])\<rparr>),
                         st' @ later e))
               | (st', Inl StoreFailure) \<Rightarrow>
                   (Some ((json 500)\<lparr>error := Some ''Insert failed''\<rparr>), st')))"

section \<open>Listing\<close>









text \<open>The sort specification: the field and whether the direction is \<^verbatim>\<open>1\<close> (ascending).\<close>

datatype sort_field = ByAddedAt | ByWordLower



fun sortDocs :: "sort_field \<times> bool \<Rightarrow> word_doc list \<Rightarrow> word_doc list" where
  "sortDocs (ByAddedAt, True) ds = sort_key addedAt ds"
| "sortDocs (ByAddedAt, False) ds = rev (sort_key addedAt ds)"
| "sortDocs (ByWordLower, True) ds = sort_key wordLower ds"
| "sortDocs (ByWordLower, False) ds = rev (sort_key wordLower ds)"










section \<open>Sample requests\<close>


definition batchA :: "jsval list option" where
  "batchA = Some (map JStr [''Cat'', ''Dog'', ''Sun'', ''Sky'', ''Red'', ''Blue'', ''Fast'',
                            ''Slow'', ''Up'', ''Down''])"

definition batchB :: "jsval list option" where
  "batchB = Some (map JStr [''Cat'', ''Dog'', ''Sun'', ''Sky'', ''Red'', ''Blue'', ''Fast'',
                            ''Slow'', ''Up'', ''  ''])"

definition batchC :: "jsval list option" where
  "batchC = Some (map JStr [''cat'', ''Dog'', ''Sun'', ''Sky'', ''Red'', ''Blue'', ''Fast'',
                            ''Slow'', ''Up'', ''Cat''])"

definition quiet :: env where
  "quiet = \<lparr>find_up = True, between = [], insert_up = True, later = [], requery_up = True,
            clock = int\<rparr>"

definition otherDog :: word_doc where
  "otherDog = \<lparr>userId = ''u2'', word = ''dog'', wordLower = ''dog'', addedAt = 5,
               learned = False, notes_field = []\<rparr>"

definition storedCat :: word_doc where
  "storedCat = \<lparr>userId = ''u2'', word = ''cat'', wordLower = ''cat'', addedAt = 3,
                learned = False, notes_field = []\<rparr>"

definition race :: env where
  "race = \<lparr>find_up = True, between = [otherDog], insert_up = True, later = [],
           requery_up = True, clock = int\<rparr>"











section \<open>Auxiliary facts\<close>

subsection \<open>Text\<close>

lemma lowerChar_idem: "lowerChar (lowerChar c) = lowerChar c"
proof -
  have lt: "(of_char c :: nat) < 256" by simp
  show ?thesis
    using lt by (auto simp add: lowerChar_def Let_def)
qed

lemma toLowerCase_idem: "toLowerCase (toLowerCase s) = toLowerCase s"
  by (simp add: toLowerCase_def lowerChar_idem)

lemma dropEnd_Cons:
  "\<not> P x \<Longrightarrow> rev (dropWhile P (rev (x # t))) = x # rev (dropWhile P (rev t))"
  by (simp add: dropWhile_append)

lemma trim_Nil_or_hd: "trim s = [] \<or> \<not> isWhite (hd (trim s))"
proof (cases "dropWhile isWhite s")
  case Nil
  show ?thesis unfolding trim_def Nil by simp
next
  case (Cons x t)
  then have "\<not> isWhite x" by (metis hd_dropWhile list.sel(1) list.distinct(1))
  then have "rev (dropWhile isWhite (rev (x # t))) = x # rev (dropWhile isWhite (rev t))"
    by (rule dropEnd_Cons)
  then show ?thesis
    unfolding trim_def Cons using \<open>\<not> isWhite x\<close> by simp
qed

lemma trim_Nil_or_last: "trim s = [] \<or> \<not> isWhite (last (trim s))"
proof (cases "dropWhile isWhite (rev (dropWhile isWhite s))")
  case Nil
  show ?thesis unfolding trim_def Nil by simp
next
  case (Cons x t)
  then have "\<not> isWhite x" by (metis hd_dropWhile list.sel(1) list.distinct(1))
  then show ?thesis unfolding trim_def Cons by simp
qed

lemma trim_idem: "trim (trim s) = trim s"
proof -
  have a: "dropWhile isWhite (trim s) = trim s"
    using trim_Nil_or_hd [of s] by (simp add: dropWhile_eq_self_iff)
  have "rev (trim s) = [] \<or> \<not> isWhite (hd (rev (trim s)))"
    using trim_Nil_or_last [of s] by (auto simp: hd_rev)
  then have b: "dropWhile isWhite (rev (trim s)) = rev (trim s)"
    by (simp only: dropWhile_eq_self_iff)
  show ?thesis
    by (subst (1) trim_def) (simp only: a b rev_rev_ident)
qed


subsection \<open>Sets and maps in insertion order\<close>

lemma fold_set_add_set: "set (foldl set_add acc xs) = set acc \<union> set xs"
  by (induction xs arbitrary: acc) (auto simp: set_add_def)

lemma fold_set_add_distinct: "distinct acc \<Longrightarrow> distinct (foldl set_add acc xs)"
  by (induction xs arbitrary: acc) (auto simp: set_add_def)

lemma fold_set_add_id: "distinct (acc @ xs) \<Longrightarrow> foldl set_add acc xs = acc @ xs"
  by (induction xs arbitrary: acc) (auto simp: set_add_def)

lemma set_fromSet: "set (fromSet xs) = set xs"
  by (simp add: fromSet_def fold_set_add_set)
lemma distinct_fromSet: "distinct (fromSet xs)"
  by (simp add: fromSet_def fold_set_add_distinct)
lemma fromSet_distinct_id: "distinct xs \<Longrightarrow> fromSet xs = xs"
  by (simp add: fromSet_def fold_set_add_id)
lemma fromSet_Nil_iff: "fromSet xs = [] \<longleftrightarrow> xs = []"
  by (metis set_fromSet set_empty)

lemma map_of_map_set: "map_of (map_set m k v) = (map_of m)(k \<mapsto> v)"
  by (induction m k v rule: map_set.induct) (auto simp: fun_eq_iff)

lemma keys_map_set:
  "map fst (map_set m k v) = (if k \<in> set (map fst m) then map fst m else map fst m @ [k])"
  by (induction m k v rule: map_set.induct) auto

lemma keys_set_map_set: "fst ` set (map_set m k v) = insert k (fst ` set m)"
  by (induction m k v rule: map_set.induct) auto

lemma get_map_set: "map_get_or0 (map_set m l v) k = (if l = k then v else map_get_or0 m k)"
  by (simp add: map_get_or0_def map_of_map_set)

lemma counts_get:
  "map_get_or0 (foldl (\<lambda>counts l. map_set counts l (map_get_or0 counts l + 1)) m ls) k
     = map_get_or0 m k + count_list ls k"
  by (induction ls arbitrary: m) (simp_all add: get_map_set)

lemma counts_keys_distinct:
  "distinct (map fst m) \<Longrightarrow>
   distinct (map fst (foldl (\<lambda>counts l. map_set counts l (map_get_or0 counts l + 1)) m ls))"
  by (induction ls arbitrary: m) (simp_all add: keys_map_set)

lemma counts_keys_set:
  "fst ` set (foldl (\<lambda>counts l. map_set counts l (map_get_or0 counts l + 1)) m ls)
     = fst ` set m \<union> set ls"
  by (induction ls arbitrary: m) (simp_all add: keys_set_map_set)

lemma countLowers_distinct: "distinct (map fst (countLowers ls))"
  unfolding countLowers_def by (rule counts_keys_distinct) simp

lemma countLowers_entry:
  "(k, c) \<in> set (countLowers ls) \<longleftrightarrow> k \<in> set ls \<and> c = count_list ls k"
proof -
  have d: "distinct (map fst (countLowers ls))" by (rule countLowers_distinct)
  have keys: "fst ` set (countLowers ls) = set ls"
    unfolding countLowers_def by (simp only: counts_keys_set) simp
  have get: "map_get_or0 (countLowers ls) k = count_list ls k"
    unfolding countLowers_def by (simp only: counts_get) (simp add: map_get_or0_def)
  show ?thesis
  proof
    assume m: "(k, c) \<in> set (countLowers ls)"
    then have "map_of (countLowers ls) k = Some c" using d by simp
    then have "c = count_list ls k" using get by (simp add: map_get_or0_def)
    moreover have "k \<in> set ls" using m keys by force
    ultimately show "k \<in> set ls \<and> c = count_list ls k" by simp
  next
    assume a: "k \<in> set ls \<and> c = count_list ls k"
    then have "k \<in> fst ` set (countLowers ls)" using keys by simp
    then obtain c' where m: "(k, c') \<in> set (countLowers ls)" by auto
    then have "map_of (countLowers ls) k = Some c'" using d by simp
    then have "c' = count_list ls k" using get by (simp add: map_get_or0_def)
    then show "(k, c) \<in> set (countLowers ls)" using m a by simp
  qed
qed

lemma set_inBatchOf: "set (inBatchOf ls) = {k. 1 < count_list ls k}"
proof -
  have "k \<in> set (inBatchOf ls) \<longleftrightarrow> 1 < count_list ls k" for k
  proof -
    have "k \<in> set (inBatchOf ls) \<longleftrightarrow> (\<exists>c. (k, c) \<in> set (countLowers ls) \<and> 1 < c)"
      unfolding inBatchOf_def by force
    also have "\<dots> \<longleftrightarrow> k \<in> set ls \<and> 1 < count_list ls k"
      by (simp add: countLowers_entry)
    also have "\<dots> \<longleftrightarrow> 1 < count_list ls k"
      by (metis count_list_0_iff not_less_zero)
    finally show ?thesis .
  qed
  then show ?thesis by blast
qed

lemma distinct_inBatchOf: "distinct (inBatchOf ls)"
  unfolding inBatchOf_def by (rule distinct_map_filter) (rule countLowers_distinct)

lemma distinct_count_le1: "distinct ls \<longleftrightarrow> (\<forall>k. count_list ls k \<le> 1)"
proof (induction ls)
  case Nil
  show ?case by simp
next
  case (Cons x xs)
  show ?case
  proof
    assume d: "distinct (x # xs)"
    then have "\<forall>k. count_list xs k \<le> 1" using Cons.IH by simp
    moreover have "count_list xs x = 0" using d by simp
    ultimately show "\<forall>k. count_list (x # xs) k \<le> 1" by simp
  next
    assume a: "\<forall>k. count_list (x # xs) k \<le> 1"
    have "count_list (x # xs) x \<le> 1" using a by blast
    then have nx: "x \<notin> set xs" by (simp add: count_list_0_iff)
    have "count_list xs k \<le> 1" for k
      using a [rule_format, of k] by (simp split: if_splits)
    then have "distinct xs" using Cons.IH by simp
    then show "distinct (x # xs)" using nx by simp
  qed
qed

lemma inBatchOf_Nil_iff: "inBatchOf ls = [] \<longleftrightarrow> distinct ls"
proof -
  have "inBatchOf ls = [] \<longleftrightarrow> (\<forall>k. count_list ls k \<le> 1)"
    using set_inBatchOf [of ls] by (auto simp: not_less [symmetric] simp del: not_less)
  also have "\<dots> \<longleftrightarrow> distinct ls"
    by (simp add: distinct_count_le1)
  finally show ?thesis .
qed

subsection \<open>Documents and ordered insertion\<close>






lemma mkDocs_nth:
  "i < length cl \<Longrightarrow> mkDocs uid clk cl ! i =
     \<lparr>userId = uid, word = cl ! i, wordLower = toLowerCase (cl ! i), addedAt = clk i,
      learned = False, notes_field = []\<rparr>"
  by (simp add: mkDocs_def nth_enumerate_eq)



subsection \<open>Normalized forms\<close>

lemma lowers_eq: "lowers (normalizeList words) = map toLowerCase (cleaned (normalizeList words))"
  by (simp add: normalizeList_def Let_def)

lemma lower_member_fixed: "x \<in> set (lowers (normalizeList words)) \<Longrightarrow> toLowerCase x = x"
  by (auto simp: lowers_eq toLowerCase_idem)

lemma map_fixed: "(\<And>x. x \<in> set xs \<Longrightarrow> f x = x) \<Longrightarrow> map f xs = xs"
  by (induction xs) simp_all

lemma lowers_fixed: "map toLowerCase (lowers (normalizeList words)) = lowers (normalizeList words)"
  by (rule map_fixed) (rule lower_member_fixed)

lemma inBatchOf_subset: "set (inBatchOf ls) \<subseteq> set ls"
proof
  fix k assume "k \<in> set (inBatchOf ls)"
  then have "1 < count_list ls k" by (simp add: set_inBatchOf)
  then have "count_list ls k \<noteq> 0" by simp
  then show "k \<in> set ls" by (simp add: count_list_0_iff)
qed

lemma conflictsObj_fixed:
  "distinct d \<Longrightarrow> distinct b \<Longrightarrow> map toLowerCase d = d \<Longrightarrow> map toLowerCase b = b
     \<Longrightarrow> conflictsObj d b = \<lparr>db = d, inBatch = b\<rparr>"
  by (simp add: conflictsObj_def fromSet_distinct_id)

lemma conflictsObj_empty: "conflictsObj [] [] = \<lparr>db = [], inBatch = []\<rparr>"
  by (simp add: conflictsObj_def fromSet_def)

subsection \<open>The conflict check\<close>

lemma found_fixed:
  "map (\<lambda>d. toLowerCase (wordLower d))
       (filter (\<lambda>d. wordLower d \<in> set (lowers (normalizeList words))) st)
     = map wordLower (filter (\<lambda>d. wordLower d \<in> set (lowers (normalizeList words))) st)"
  by (induction st) (simp_all add: lower_member_fixed)

lemma existing_set:
  "set (fromSet (map (\<lambda>d. toLowerCase (wordLower d))
         (filter (\<lambda>d. wordLower d \<in> set (lowers (normalizeList words))) st)))
     = set (lowers (normalizeList words)) \<inter> set (map wordLower st)"
  by (simp only: found_fixed set_fromSet) auto

lemma existing_fixed:
  "map toLowerCase (fromSet (map (\<lambda>d. toLowerCase (wordLower d))
         (filter (\<lambda>d. wordLower d \<in> set (lowers (normalizeList words))) st)))
     = fromSet (map (\<lambda>d. toLowerCase (wordLower d))
         (filter (\<lambda>d. wordLower d \<in> set (lowers (normalizeList words))) st))"
proof (rule map_fixed)
  fix x
  assume "x \<in> set (fromSet (map (\<lambda>d. toLowerCase (wordLower d))
         (filter (\<lambda>d. wordLower d \<in> set (lowers (normalizeList words))) st)))"
  then have "x \<in> set (lowers (normalizeList words))" by (simp only: existing_set) simp
  then show "toLowerCase x = x" by (rule lower_member_fixed)
qed

lemma inBatch_fixed:
  "map toLowerCase (inBatchOf (lowers (normalizeList words))) = inBatchOf (lowers (normalizeList words))"
proof (rule map_fixed)
  fix x assume "x \<in> set (inBatchOf (lowers (normalizeList words)))"
  then have "x \<in> set (lowers (normalizeList words))" using inBatchOf_subset by blast
  then show "toLowerCase x = x" by (rule lower_member_fixed)
qed

lemma report_fixed:
  "conflictsObj
     (fromSet (map (\<lambda>d. toLowerCase (wordLower d))
         (filter (\<lambda>d. wordLower d \<in> set (lowers (normalizeList words))) st)))
     (inBatchOf (lowers (normalizeList words)))
   = \<lparr>db = fromSet (map (\<lambda>d. toLowerCase (wordLower d))
         (filter (\<lambda>d. wordLower d \<in> set (lowers (normalizeList words))) st)),
      inBatch = inBatchOf (lowers (normalizeList words))\<rparr>"
  by (rule conflictsObj_fixed) (simp_all only: distinct_fromSet distinct_inBatchOf existing_fixed inBatch_fixed)

lemma validateWords_count:
  "length (cleaned (normalizeList words)) \<noteq> 10 \<Longrightarrow>
   validateWords up st words =
     Inr \<lparr>v_ok = False, v_status = Some 400,
          v_error = Some (countError (length (cleaned (normalizeList words)))),
          v_cleaned = None, v_lowers = None, v_conflicts = \<lparr>db = [], inBatch = []\<rparr>\<rparr>"
  by (simp add: validateWords_def Let_def conflictsObj_empty)

lemma validateWords_down:
  "length (cleaned (normalizeList words)) = 10 \<Longrightarrow> validateWords False st words = Inl StoreFailure"
  by (simp add: validateWords_def Let_def Word_find_def)

lemma validateWords_ten:
  "length (cleaned (normalizeList words)) = 10 \<Longrightarrow>
   validateWords True st words =
     (if fromSet (map (\<lambda>d. toLowerCase (wordLower d))
            (filter (\<lambda>d. wordLower d \<in> set (lowers (normalizeList words))) st)) = []
         \<and> inBatchOf (lowers (normalizeList words)) = []
      then Inr \<lparr>v_ok = True, v_status = None, v_error = None,
                v_cleaned = Some (cleaned (normalizeList words)),
                v_lowers = Some (lowers (normalizeList words)),
                v_conflicts = \<lparr>db = [], inBatch = []\<rparr>\<rparr>
      else Inr \<lparr>v_ok = False, v_status = None, v_error = None, v_cleaned = None, v_lowers = None,
                v_conflicts =
                  \<lparr>db = fromSet (map (\<lambda>d. toLowerCase (wordLower d))
                          (filter (\<lambda>d. wordLower d \<in> set (lowers (normalizeList words))) st)),
                   inBatch = inBatchOf (lowers (normalizeList words))\<rparr>\<rparr>)"
  by (simp add: validateWords_def Let_def Word_find_def conflictsObj_empty report_fixed)

lemma existing_Nil_iff:
  "fromSet (map (\<lambda>d. toLowerCase (wordLower d)) (filter (\<lambda>d. wordLower d \<in> set ls) st)) = []
     \<longleftrightarrow> set ls \<inter> set (map wordLower st) = {}"
  by (auto simp add: fromSet_Nil_iff filter_empty_conv)

lemma normalizeList_items:
  "normalizeList (Some (case words of None \<Rightarrow> [] | Some xs \<Rightarrow> xs)) = normalizeList words"
  by (cases words) (simp_all add: normalizeList_def)

subsection \<open>The routes on short and on clean batches\<close>

lemma post_validate_count:
  "length (cleaned (normalizeList words)) \<noteq> 10 \<Longrightarrow>
   post_validate e st words =
     ((json 400)\<lparr>ok := Some False, body_status := Some 400,
                  error := Some (countError (length (cleaned (normalizeList words)))),
                  conflicts := Some \<lparr>db = [], inBatch = []\<rparr>\<rparr>, st)"
  by (simp add: post_validate_def validateWords_count)

lemma post_words_count:
  "length (cleaned (normalizeList words)) \<noteq> 10 \<Longrightarrow>
   post_words uid e st words =
     ((json 409)\<lparr>error := Some ''Conflicts found. Fix duplicates before submitting.'',
                  conflicts := Some \<lparr>db = [], inBatch = []\<rparr>\<rparr>, st)"
  by (simp add: post_words_def validateWords_count)

lemma post_words_backend_count:
  "length (cleaned (normalizeList words)) \<noteq> 10 \<Longrightarrow>
   post_words_backend uid action e st words =
     (Some ((json 400)\<lparr>error := Some (countError (length (cleaned (normalizeList words)))),
                        conflicts := Some \<lparr>db = [], inBatch = []\<rparr>\<rparr>), st)"
  by (simp add: post_words_backend_def normalizeList_items Let_def conflictsObj_empty)

lemma validateWords_clean:
  assumes "length (cleaned (normalizeList words)) = 10"
    and "distinct (lowers (normalizeList words))"
    and "set (lowers (normalizeList words)) \<inter> set (map wordLower st) = {}"
  shows "validateWords True st words =
      Inr \<lparr>v_ok = True, v_status = None, v_error = None,
                v_cleaned = Some (cleaned (normalizeList words)),
                v_lowers = Some (lowers (normalizeList words)),
                v_conflicts = \<lparr>db = [], inBatch = []\<rparr>\<rparr>"
proof -
  have a: "fromSet (map (\<lambda>d. toLowerCase (wordLower d))
            (filter (\<lambda>d. wordLower d \<in> set (lowers (normalizeList words))) st)) = []"
    using assms(3) by (simp only: existing_Nil_iff)
  have b: "inBatchOf (lowers (normalizeList words)) = []"
    using assms(2) by (simp only: inBatchOf_Nil_iff)
  show ?thesis
    by (simp only: validateWords_ten [OF assms(1)] a b) simp
qed

lemma validateWords_conflict:
  assumes "length (cleaned (normalizeList words)) = 10"
    and "\<not> distinct (lowers (normalizeList words))
         \<or> set (lowers (normalizeList words)) \<inter> set (map wordLower st) \<noteq> {}"
  shows "validateWords True st words =
      Inr \<lparr>v_ok = False, v_status = None, v_error = None, v_cleaned = None, v_lowers = None,
                v_conflicts =
                  \<lparr>db = fromSet (map (\<lambda>d. toLowerCase (wordLower d))
                          (filter (\<lambda>d. wordLower d \<in> set (lowers (normalizeList words))) st)),
                   inBatch = inBatchOf (lowers (normalizeList words))\<rparr>\<rparr>"
proof -
  have "\<not> (fromSet (map (\<lambda>d. toLowerCase (wordLower d))
            (filter (\<lambda>d. wordLower d \<in> set (lowers (normalizeList words))) st)) = []
         \<and> inBatchOf (lowers (normalizeList words)) = [])"
    using assms(2) by (simp only: existing_Nil_iff inBatchOf_Nil_iff) blast
  then show ?thesis
    by (simp only: validateWords_ten [OF assms(1)] if_False)
qed


subsection \<open>Submission after the conflict check\<close>



lemma post_words_backend_checked:
  assumes ten: "length (cleaned (normalizeList words)) = 10"
    and dist: "distinct (lowers (normalizeList words))"
    and fresh: "set (lowers (normalizeList words)) \<inter> set (map wordLower st) = {}"
    and up: "find_up e"
    and act: "toLowerCase action \<noteq> ''validate''"
  shows "post_words_backend uid action e st words =
     (case Word_insertMany (insert_up e) (st @ between e)
             (mkDocs uid (clock e) (cleaned (normalizeList words))) of
        (st', Inr inserted) \<Rightarrow> (Some ((json 200)\<lparr>added := Some (length inserted)\<rparr>), st')
      | (st', Inl (DuplicateKey k)) \<Rightarrow>
          (case Word_find (requery_up e) (st' @ later e) (lowers (normalizeList words)) of
             Inl err \<Rightarrow> (None, st' @ later e)
           | Inr nowExisting \<Rightarrow>
               (Some ((json 409)\<lparr>error := Some ''One or more words already exist'',
                                  conflicts := Some (conflictsObj (map wordLower nowExisting) [])\<rparr>),
                st' @ later e))
      | (st', Inl StoreFailure) \<Rightarrow> (Some ((json 500)\<lparr>error := Some ''Insert failed''\<rparr>), st'))"
proof -
  have E: "fromSet (map (\<lambda>d. toLowerCase (wordLower d))
            (filter (\<lambda>d. wordLower d \<in> set (lowers (normalizeList words))) st)) = []"
    using fresh by (simp only: existing_Nil_iff)
  have B: "inBatchOf (lowers (normalizeList words)) = []"
    using dist by (simp only: inBatchOf_Nil_iff)
  have F: "Word_find (find_up e) st (lowers (normalizeList words))
      = Inr (filter (\<lambda>d. wordLower d \<in> set (lowers (normalizeList words))) st)"
    using up by (simp add: Word_find_def)
  show ?thesis
    using act
    by (simp add: post_words_backend_def normalizeList_items Let_def ten F E B)
qed



subsection \<open>The conflict reports of the routes\<close>

lemma report_inter:
  "set (fromSet (map (\<lambda>d. toLowerCase (wordLower d))
         (filter (\<lambda>d. wordLower d \<in> set (lowers (normalizeList words))) st)))
     \<inter> set (inBatchOf (lowers (normalizeList words)))
   = {x \<in> set (map wordLower st). 1 < count_list (lowers (normalizeList words)) x}"
proof -
  have "1 < count_list ls x \<Longrightarrow> x \<in> set ls" for ls :: "string list" and x
    using inBatchOf_subset [of ls] by (auto simp: set_inBatchOf)
  then show ?thesis
    by (simp only: existing_set set_inBatchOf) blast
qed

lemma validateWords_report:
  assumes ten: "length (cleaned (normalizeList words)) = 10"
  shows "\<exists>r. validateWords True st words = Inr r
      \<and> v_conflicts r =
           \<lparr>db = fromSet (map (\<lambda>d. toLowerCase (wordLower d))
                   (filter (\<lambda>d. wordLower d \<in> set (lowers (normalizeList words))) st)),
            inBatch = inBatchOf (lowers (normalizeList words))\<rparr>
      \<and> v_ok r = (set (lowers (normalizeList words)) \<inter> set (map wordLower st) = {}
                  \<and> distinct (lowers (normalizeList words)))
      \<and> v_status r = None \<and> v_error r = None"
proof (cases "set (lowers (normalizeList words)) \<inter> set (map wordLower st) = {}
                  \<and> distinct (lowers (normalizeList words))")
  case True
  then have a: "fromSet (map (\<lambda>d. toLowerCase (wordLower d))
            (filter (\<lambda>d. wordLower d \<in> set (lowers (normalizeList words))) st)) = []"
    and b: "inBatchOf (lowers (normalizeList words)) = []"
    by (simp_all only: existing_Nil_iff inBatchOf_Nil_iff)
  show ?thesis
    using True validateWords_clean [OF ten, of st] by (simp add: a b)
next
  case False
  then have cf: "\<not> distinct (lowers (normalizeList words))
         \<or> set (lowers (normalizeList words)) \<inter> set (map wordLower st) \<noteq> {}"
    by blast
  show ?thesis
    using False by (simp only: validateWords_conflict [OF ten cf]) simp
qed

lemma post_validate_report:
  assumes ten: "length (cleaned (normalizeList words)) = 10" and up: "find_up e"
  shows "conflicts (fst (post_validate e st words)) =
           Some \<lparr>db = fromSet (map (\<lambda>d. toLowerCase (wordLower d))
                   (filter (\<lambda>d. wordLower d \<in> set (lowers (normalizeList words))) st)),
                 inBatch = inBatchOf (lowers (normalizeList words))\<rparr>"
proof -
  obtain r where r: "validateWords (find_up e) st words = Inr r"
      "v_conflicts r =
           \<lparr>db = fromSet (map (\<lambda>d. toLowerCase (wordLower d))
                   (filter (\<lambda>d. wordLower d \<in> set (lowers (normalizeList words))) st)),
            inBatch = inBatchOf (lowers (normalizeList words))\<rparr>"
    using validateWords_report [OF ten, of st] up by auto
  show ?thesis
    by (simp add: post_validate_def r json_def)
qed

lemma post_words_report:
  assumes ten: "length (cleaned (normalizeList words)) = 10" and up: "find_up e"
  shows "conflicts (fst (post_words uid e st words)) =
           (if set (lowers (normalizeList words)) \<inter> set (map wordLower st) = {}
                  \<and> distinct (lowers (normalizeList words))
            then None
            else Some \<lparr>db = fromSet (map (\<lambda>d. toLowerCase (wordLower d))
                   (filter (\<lambda>d. wordLower d \<in> set (lowers (normalizeList words))) st)),
                 inBatch = inBatchOf (lowers (normalizeList words))\<rparr>)"
proof (cases "set (lowers (normalizeList words)) \<inter> set (map wordLower st) = {}
                  \<and> distinct (lowers (normalizeList words))")
  case True
  then have v: "validateWords (find_up e) st words =
      Inr \<lparr>v_ok = True, v_status = None, v_error = None,
                v_cleaned = Some (cleaned (normalizeList words)),
                v_lowers = Some (lowers (normalizeList words)),
                v_conflicts = \<lparr>db = [], inBatch = []\<rparr>\<rparr>"
    using up validateWords_clean [OF ten, of st] by simp
  obtain st' res where io: "Word_insertMany (insert_up e) (st @ between e)
      (mkDocs uid (clock e) (cleaned (normalizeList words))) = (st', res)"
    by (cases "Word_insertMany (insert_up e) (st @ between e)
      (mkDocs uid (clock e) (cleaned (normalizeList words)))")
  have "conflicts (insert_failed err) = None" for err
    by (cases err) (simp_all add: json_def)
  then show ?thesis
    using True by (simp add: post_words_def v io json_def split: sum.split)
next
  case False
  then have cf: "\<not> distinct (lowers (normalizeList words))
         \<or> set (lowers (normalizeList words)) \<inter> set (map wordLower st) \<noteq> {}"
    by blast
  have v: "validateWords (find_up e) st words =
      Inr \<lparr>v_ok = False, v_status = None, v_error = None, v_cleaned = None, v_lowers = None,
                v_conflicts =
                  \<lparr>db = fromSet (map (\<lambda>d. toLowerCase (wordLower d))
                          (filter (\<lambda>d. wordLower d \<in> set (lowers (normalizeList words))) st)),
                   inBatch = inBatchOf (lowers (normalizeList words))\<rparr>\<rparr>"
    using up validateWords_conflict [OF ten cf] by simp
  show ?thesis
    using False by (simp only: post_words_def v) (simp add: json_def)
qed

lemma post_words_backend_report:
  assumes ten: "length (cleaned (normalizeList words)) = 10" and up: "find_up e"
    and c: "\<not> (set (lowers (normalizeList words)) \<inter> set (map wordLower st) = {}
                  \<and> distinct (lowers (normalizeList words))) \<or> toLowerCase action = ''validate''"
  shows "\<exists>r. fst (post_words_backend uid action e st words) = Some r \<and> conflicts r =
            Some \<lparr>db = fromSet (map (\<lambda>d. toLowerCase (wordLower d))
                   (filter (\<lambda>d. wordLower d \<in> set (lowers (normalizeList words))) st)),
                 inBatch = inBatchOf (lowers (normalizeList words))\<rparr>"
proof -
  have F: "Word_find (find_up e) st (lowers (normalizeList words))
      = Inr (filter (\<lambda>d. wordLower d \<in> set (lowers (normalizeList words))) st)"
    using up by (simp add: Word_find_def)
  show ?thesis
  proof (cases "set (lowers (normalizeList words)) \<inter> set (map wordLower st) = {}
                  \<and> distinct (lowers (normalizeList words))")
    case True
    then have a: "fromSet (map (\<lambda>d. toLowerCase (wordLower d))
            (filter (\<lambda>d. wordLower d \<in> set (lowers (normalizeList words))) st)) = []"
      and b: "inBatchOf (lowers (normalizeList words)) = []"
      by (simp_all only: existing_Nil_iff inBatchOf_Nil_iff)
    have act: "toLowerCase action = ''validate''" using c True by blast
    show ?thesis
      by (simp add: post_words_backend_def normalizeList_items Let_def ten F a b act
          conflictsObj_empty json_def)
  next
    case False
    then have ab: "\<not> (fromSet (map (\<lambda>d. toLowerCase (wordLower d))
            (filter (\<lambda>d. wordLower d \<in> set (lowers (normalizeList words))) st)) = []
         \<and> inBatchOf (lowers (normalizeList words)) = [])"
      by (simp only: existing_Nil_iff inBatchOf_Nil_iff) blast
    show ?thesis
      using ab
      by (simp add: post_words_backend_def normalizeList_items Let_def ten F report_fixed json_def
            conflictsObj_empty)
  qed
qed

lemma post_validate_down:
  "length (cleaned (normalizeList words)) = 10 \<Longrightarrow> \<not> find_up e \<Longrightarrow>
   post_validate e st words = ((json 500)\<lparr>error := Some ''Validation failed''\<rparr>, st)"
  by (simp add: post_validate_def validateWords_down)

lemma post_words_down:
  "length (cleaned (normalizeList words)) = 10 \<Longrightarrow> \<not> find_up e \<Longrightarrow>
   post_words uid e st words = ((json 500)\<lparr>error := Some ''Insert failed''\<rparr>, st)"
  by (simp add: post_words_def validateWords_down)

lemma post_words_backend_down:
  "length (cleaned (normalizeList words)) = 10 \<Longrightarrow> \<not> find_up e \<Longrightarrow>
   post_words_backend uid action e st words = (Some ((json 500)\<lparr>error := Some ''DB fetch failed''\<rparr>), st)"
  by (simp add: post_words_backend_def normalizeList_items Let_def Word_find_def)

lemma count_list_map_filter: "count_list (map f xs) y = length (filter (\<lambda>w. f w = y) xs)"
  by (induction xs) simp_all

lemma distinct_count_1: "distinct xs \<Longrightarrow> x \<in> set xs \<Longrightarrow> count_list xs x = 1"
proof -
  assume d: "distinct xs" and m: "x \<in> set xs"
  have "count_list xs x \<le> 1" using d by (simp add: distinct_count_le1)
  moreover have "count_list xs x \<noteq> 0" using m by (simp add: count_list_0_iff)
  ultimately show ?thesis by simp
qed

subsection \<open>Listing\<close>





lemma set_sortDocs: "set (sortDocs spec ds) = set ds"
  by (cases "(spec, ds)" rule: sortDocs.cases) simp_all

lemma length_sortDocs: "length (sortDocs spec ds) = length ds"
  by (cases "(spec, ds)" rule: sortDocs.cases) simp_all









section \<open>The claims\<close>

lemmas text_eval = toLowerCase_def lowerChar_def trim_def isWhite_def char_of_def bit_Suc_0_iff


lemmas route_eval = post_words_def post_validate_def post_words_backend_def validateWords_def
  normalizeList_def Let_def inBatchOf_def countLowers_def map_get_or0_def Word_find_def
  fromSet_def set_add_def conflictsObj_def Word_insertMany_def mkDocs_def json_def countError_def





text \<open>
  C2. At a batch of ten posted strings of which nine remain after cleaning, the validate
  route of \<^verbatim>\<open>src/routes/words.js\<close> and the route of \<^verbatim>\<open>backend/routes/words.js\<close> answer
  with status 400, the message carrying the count 9 and the empty conflict report, and
  write nothing. The submit route of \<^verbatim>\<open>src/routes/words.js\<close> writes nothing either, but it
  drops the status and the message that \<open>validateWords\<close> returned: it answers with status
  409 and the text of a conflict, which carries no count.
\<close>

theorem short_batch_replies:
  "post_validate quiet [] batchB =
     (\<lparr>status = 400, ok = Some False, body_status = Some 400,
        error = Some ''Exactly 10 words required. Received 9.'', message = None,
        conflicts = Some \<lparr>db = [], inBatch = []\<rparr>, added = None\<rparr>, [])
   \<and> post_words_backend ''u1'' [] quiet [] batchB =
     (Some \<lparr>status = 400, ok = None, body_status = None,
        error = Some ''Exactly 10 words required. Received 9.'', message = None,
        conflicts = Some \<lparr>db = [], inBatch = []\<rparr>, added = None\<rparr>, [])
   \<and> post_words ''u1'' quiet [] batchB =
     (\<lparr>status = 409, ok = None, body_status = None,
        error = Some ''Conflicts found. Fix duplicates before submitting.'', message = None,
        conflicts = Some \<lparr>db = [], inBatch = []\<rparr>, added = None\<rparr>, [])"
  by (simp add: route_eval text_eval quiet_def batchB_def decimal.simps)




text \<open>
  C4. Another request commits \<^verbatim>\<open>dog\<close> after the conflict query of a submission of
  scenario A found nothing, so the insertion raises the duplicate-key error. The route of
  \<^verbatim>\<open>backend/routes/words.js\<close> queries the collection again and answers with a conflict
  report; the route of \<^verbatim>\<open>src/routes/words.js\<close> answers with the bare message and no
  conflict report.
\<close>

theorem race_replies:
  "fst (post_words_backend ''u1'' [] race [] batchA) =
     Some \<lparr>status = 409, ok = None, body_status = None,
        error = Some ''One or more words already exist'', message = None,
        conflicts = Some \<lparr>db = [''dog'', ''cat''], inBatch = []\<rparr>, added = None\<rparr>
   \<and> fst (post_words ''u1'' race [] batchA) =
     \<lparr>status = 409, ok = None, body_status = None,
        error = Some ''One or more words already exist'', message = None,
        conflicts = None, added = None\<rparr>"
  by (simp add: route_eval text_eval race_def batchA_def otherDog_def)

text \<open>
  C5, as the code has it. The two lists of every conflict report that a route sends are
  each free of duplicates, but they are computed independently and are not disjoint in
  general: for a batch of 10 cleaned entries, the strings that are in both lists are
  exactly the normalized words of stored documents that occur more than once among the
  normalized forms of the batch (for any other batch both lists are empty).
\<close>

theorem report_sets_overlap:
  fixes uid action :: string and e :: env and st :: "word_doc list" and words :: "jsval list option"
  defines "good \<equiv> \<lambda>c. distinct (db c) \<and> distinct (inBatch c)
      \<and> set (db c) \<inter> set (inBatch c)
          = (if length (cleaned (normalizeList words)) = 10
             then {x \<in> set (map wordLower st). 1 < count_list (lowers (normalizeList words)) x}
             else {})"
  shows "(\<forall>c. conflicts (fst (post_validate e st words)) = Some c \<longrightarrow> good c)
       \<and> (\<forall>c. conflicts (fst (post_words uid e st words)) = Some c \<longrightarrow> good c)
       \<and> (\<forall>r c. fst (post_words_backend uid action e st words) = Some r \<and> conflicts r = Some c
               \<longrightarrow> good c)"
proof (cases "length (cleaned (normalizeList words)) = 10")
  case False
  have g: "good \<lparr>db = [], inBatch = []\<rparr>" using False by (simp add: good_def)
  show ?thesis
    using False g
    by (simp add: post_validate_count post_words_count post_words_backend_count json_def)
next
  case ten: True
  let ?E = "fromSet (map (\<lambda>d. toLowerCase (wordLower d))
                   (filter (\<lambda>d. wordLower d \<in> set (lowers (normalizeList words))) st))"
  let ?B = "inBatchOf (lowers (normalizeList words))"
  have g: "good \<lparr>db = ?E, inBatch = ?B\<rparr>"
    using ten by (simp add: good_def distinct_fromSet distinct_inBatchOf report_inter)
  show ?thesis
  proof (cases "find_up e")
    case False
    show ?thesis
      using ten False
      by (simp add: post_validate_down post_words_down post_words_backend_down json_def)
  next
    case up: True
    have 1: "\<forall>c. conflicts (fst (post_validate e st words)) = Some c \<longrightarrow> good c"
      using g by (simp add: post_validate_report [OF ten up])
    have 2: "\<forall>c. conflicts (fst (post_words uid e st words)) = Some c \<longrightarrow> good c"
      using g by (simp add: post_words_report [OF ten up])
    have 3: "\<forall>r c. fst (post_words_backend uid action e st words) = Some r \<and> conflicts r = Some c
               \<longrightarrow> good c"
    proof (cases "\<not> (set (lowers (normalizeList words)) \<inter> set (map wordLower st) = {}
                  \<and> distinct (lowers (normalizeList words))) \<or> toLowerCase action = ''validate''")
      case True
      then obtain r where "fst (post_words_backend uid action e st words) = Some r"
          "conflicts r = Some \<lparr>db = ?E, inBatch = ?B\<rparr>"
        using post_words_backend_report [OF ten up, of st action uid] by blast
      then show ?thesis using g by simp
    next
      case False
      then have fresh: "set (lowers (normalizeList words)) \<inter> set (map wordLower st) = {}"
        and dist: "distinct (lowers (normalizeList words))"
        and act: "toLowerCase action \<noteq> ''validate''" by blast+
      have none: "{x \<in> set (map wordLower st). 1 < count_list (lowers (normalizeList words)) x} = {}"
        using dist fresh by (auto simp: distinct_count_le1 not_less)
      have nil: "fromSet ([] :: string list) = []" by (simp add: fromSet_def)
      have g2: "good (conflictsObj xs [])" for xs
        using ten none by (simp add: good_def conflictsObj_def distinct_fromSet nil)
      show ?thesis
        using g2
        by (simp add: post_words_backend_checked [OF ten dist fresh up act] json_def Word_find_def
              split: prod.split sum.split store_error.split)
    qed
    show ?thesis using 1 2 3 by (intro conjI)
  qed
qed


theorem report_sets_overlap_witness:
  "conflicts (fst (post_validate quiet [storedCat] batchC))
      = Some \<lparr>db = [''cat''], inBatch = [''cat'']\<rparr>
   \<and> distinct (db \<lparr>db = [''cat''], inBatch = [''cat'']\<rparr>)
   \<and> distinct (inBatch \<lparr>db = [''cat''], inBatch = [''cat'']\<rparr>)
   \<and> set (db \<lparr>db = [''cat''], inBatch = [''cat'']\<rparr>)
         \<inter> set (inBatch \<lparr>db = [''cat''], inBatch = [''cat'']\<rparr>)
       = (if length (cleaned (normalizeList batchC)) = 10
          then {x \<in> set (map wordLower [storedCat]). 1 < count_list (lowers (normalizeList batchC)) x}
          else {})"
proof -
  have v: "conflicts (fst (post_validate quiet [storedCat] batchC))
      = Some \<lparr>db = [''cat''], inBatch = [''cat'']\<rparr>"
    by (simp add: route_eval text_eval quiet_def batchC_def storedCat_def)
  note T = report_sets_overlap [of quiet "[storedCat]" batchC "''u1''" "[]"]
  from T [THEN conjunct1, THEN spec, THEN mp, OF v] v
  show ?thesis by (intro conjI) blast+
qed

theorem report_sets_not_disjoint:
  "conflicts (fst (post_validate quiet [storedCat] batchC))
      = Some \<lparr>db = [''cat''], inBatch = [''cat'']\<rparr>
   \<and> fst (post_words_backend ''u1'' ''validate'' quiet [storedCat] batchC)
      = Some \<lparr>status = 200, ok = Some False, body_status = None, error = None,
              message = Some ''Conflicts found'',
              conflicts = Some \<lparr>db = [''cat''], inBatch = [''cat'']\<rparr>, added = None\<rparr>
   \<and> set (db \<lparr>db = [''cat''], inBatch = [''cat'']\<rparr>)
         \<inter> set (inBatch \<lparr>db = [''cat''], inBatch = [''cat'']\<rparr>) \<noteq> {}"
  by (simp add: route_eval text_eval quiet_def batchC_def storedCat_def)

text \<open>
  C6. In a batch of 10 cleaned entries of which at least two normalize to the same
  lower-case form \<open>x\<close>, the in-batch list of the conflict report (of the validate routes
  and of the rejected submission, the store answering) contains \<open>x\<close> exactly once, however
  often it repeats: the list has no duplicates and its elements are exactly the
  lower-case forms that more than one cleaned entry normalizes to.
\<close>

theorem in_batch_once:
  assumes ten: "length (cleaned (normalizeList words)) = 10"
    and rep: "2 \<le> length (filter (\<lambda>w. toLowerCase w = x) (cleaned (normalizeList words)))"
    and up: "find_up e"
  shows "\<exists>c. conflicts (fst (post_validate e st words)) = Some c
          \<and> (\<exists>r. fst (post_words_backend uid ''validate'' e st words) = Some r \<and> conflicts r = Some c)
          \<and> conflicts (fst (post_words uid e st words)) = Some c
          \<and> count_list (inBatch c) x = 1
          \<and> distinct (inBatch c)
          \<and> set (inBatch c)
              = {y. 1 < length (filter (\<lambda>w. toLowerCase w = y) (cleaned (normalizeList words)))}"
proof -
  let ?E = "fromSet (map (\<lambda>d. toLowerCase (wordLower d))
                   (filter (\<lambda>d. wordLower d \<in> set (lowers (normalizeList words))) st))"
  let ?B = "inBatchOf (lowers (normalizeList words))"
  have cnt: "count_list (lowers (normalizeList words)) y
      = length (filter (\<lambda>w. toLowerCase w = y) (cleaned (normalizeList words)))" for y
    by (simp only: lowers_eq count_list_map_filter)
  have sB: "set ?B = {y. 1 < length (filter (\<lambda>w. toLowerCase w = y) (cleaned (normalizeList words)))}"
    by (simp only: set_inBatchOf cnt)
  have xB: "x \<in> set ?B" using rep by (simp only: sB) simp
  have one: "count_list ?B x = 1"
    using distinct_inBatchOf xB by (rule distinct_count_1)
  have nd: "\<not> distinct (lowers (normalizeList words))"
    using xB inBatchOf_Nil_iff [of "lowers (normalizeList words)"] by auto
  have lv: "toLowerCase ''validate'' = ''validate''" by (simp add: text_eval)
  have 1: "conflicts (fst (post_validate e st words)) = Some \<lparr>db = ?E, inBatch = ?B\<rparr>"
    by (rule post_validate_report [OF ten up])
  have 2: "\<exists>r. fst (post_words_backend uid ''validate'' e st words) = Some r
             \<and> conflicts r = Some \<lparr>db = ?E, inBatch = ?B\<rparr>"
    by (rule post_words_backend_report [OF ten up]) (simp add: lv)
  have 3: "conflicts (fst (post_words uid e st words)) = Some \<lparr>db = ?E, inBatch = ?B\<rparr>"
    using nd by (simp add: post_words_report [OF ten up])
  show ?thesis
    using 1 2 3 one sB distinct_inBatchOf [of "lowers (normalizeList words)"]
    by (intro exI [of _ "\<lparr>db = ?E, inBatch = ?B\<rparr>"]) simp
qed

theorem in_batch_once_witness:
  "length (cleaned (normalizeList batchC)) = 10
   \<and> 2 \<le> length (filter (\<lambda>w. toLowerCase w = ''cat'') (cleaned (normalizeList batchC)))
   \<and> find_up quiet
   \<and> (\<exists>c. conflicts (fst (post_validate quiet [] batchC)) = Some c
          \<and> conflicts (fst (post_words ''u1'' quiet [] batchC)) = Some c
          \<and> count_list (inBatch c) ''cat'' = 1)"
proof -
  have c: "cleaned (normalizeList batchC)
      = [''cat'', ''Dog'', ''Sun'', ''Sky'', ''Red'', ''Blue'', ''Fast'', ''Slow'', ''Up'', ''Cat'']"
    by (simp add: batchC_def normalizeList_def Let_def text_eval)
  have h1: "length (cleaned (normalizeList batchC)) = 10"
    by (simp only: c) simp
  have h2: "2 \<le> length (filter (\<lambda>w. toLowerCase w = ''cat'') (cleaned (normalizeList batchC)))"
    by (simp only: c) (simp add: text_eval)
  have h3: "find_up quiet" by (simp add: quiet_def)
  from in_batch_once [OF h1 h2 h3, of "[]" "''u1''"]
  have "\<exists>c. conflicts (fst (post_validate quiet [] batchC)) = Some c
          \<and> conflicts (fst (post_words ''u1'' quiet [] batchC)) = Some c
          \<and> count_list (inBatch c) ''cat'' = 1"
    by blast
  then show ?thesis using h1 h2 h3 by (intro conjI)
qed












end
